theory Spec2Isabelle
  imports Complex_Main "HOL-Library.Finite_Map"
begin

section \<open>Strings and paths as the Python library reads them\<close>

text \<open>
  A Python \<open>str\<close> is modelled as a \<open>string\<close>: one \<open>char\<close> stands for one code point
  (the code points below 256; every character the program tests for is ASCII).
  A \<open>bytes\<close> value is a list of \<open>char\<close> as well.
\<close>

type_synonym bytes = string

definition BACKSLASH :: char where
  "BACKSLASH = CHR 0x5C"

definition NUL :: char where
  "NUL = CHR 0x00"

definition DQUOTE :: char where
  "DQUOTE = CHR 0x22"

definition SQUOTE :: char where
  "SQUOTE = CHR 0x27"

text \<open>\<open>s.replace(c, new)\<close> for a one-character pattern \<open>c\<close>.\<close>

definition replace_char :: "char \<Rightarrow> string \<Rightarrow> string \<Rightarrow> string" where
  "replace_char c new s = concat (map (\<lambda>x. if x = c then new else [x]) s)"

text \<open>\<open>s.lstrip(cs)\<close> and \<open>s.rstrip(cs)\<close>: drop the leading (trailing) characters in \<open>cs\<close>.\<close>

definition lstrip :: "string \<Rightarrow> string \<Rightarrow> string" where
  "lstrip cs s = dropWhile (\<lambda>x. x \<in> set cs) s"

definition rstrip :: "string \<Rightarrow> string \<Rightarrow> string" where
  "rstrip cs s = rev (dropWhile (\<lambda>x. x \<in> set cs) (rev s))"

text \<open>\<open>re.sub('[...]', new, s)\<close> for a character class and a one-character replacement.\<close>

definition re_sub_class :: "string \<Rightarrow> char \<Rightarrow> string \<Rightarrow> string" where
  "re_sub_class cls new s = map (\<lambda>x. if x \<in> set cls then new else x) s"

text \<open>\<open>s.rfind(c)\<close>: the index of the last \<open>c\<close> in \<open>s\<close>, or \<open>-1\<close>.\<close>

definition rfind :: "char \<Rightarrow> string \<Rightarrow> int" where
  "rfind c s = (case dropWhile (\<lambda>x. x \<noteq> c) (rev s) of
                  [] \<Rightarrow> - 1
                | _ # front \<Rightarrow> int (length front))"

text \<open>\<open>s.split(c)\<close> for a one-character separator.\<close>

fun split_on :: "char \<Rightarrow> string \<Rightarrow> string list" where
  "split_on c [] = [[]]"
| "split_on c (x # xs) =
     (if x = c then [] # split_on c xs
      else (case split_on c xs of
              [] \<Rightarrow> [[x]]
            | p # ps \<Rightarrow> (x # p) # ps))"

text \<open>
  \<open>pathlib.PurePosixPath(s).name\<close>: the last component of \<open>s\<close>, after the empty and
  the \<open>.\<close> components are dropped; the empty string when none is left.
\<close>

definition path_name :: "string \<Rightarrow> string" where
  "path_name s =
     (case filter (\<lambda>p. p \<noteq> [] \<and> p \<noteq> ''.'') (split_on CHR ''/'' s) of
        [] \<Rightarrow> []
      | p # ps \<Rightarrow> last (p # ps))"

text \<open>
  \<open>PurePosixPath(s).suffix\<close> and \<open>.stem\<close> (Python 3.10 to 3.13): with \<open>i\<close> the index of
  the last dot of the name, the name is cut at \<open>i\<close> when \<open>0 < i < len(name) - 1\<close>;
  otherwise the suffix is empty and the stem is the whole name.
\<close>

definition path_suffix :: "string \<Rightarrow> string" where
  "path_suffix s =
     (let name = path_name s; i = rfind CHR ''.'' name
      in if 0 < i \<and> i < int (length name) - 1 then drop (nat i) name else [])"

definition path_stem :: "string \<Rightarrow> string" where
  "path_stem s =
     (let name = path_name s; i = rfind CHR ''.'' name
      in if 0 < i \<and> i < int (length name) - 1 then take (nat i) name else name)"

section \<open>Filename sanitizer (utils/file\_utils.py)\<close>

definition RESERVED :: string where
  "RESERVED = [CHR ''<'', CHR ''>'', CHR '':'', DQUOTE, CHR ''|'', CHR ''?'', CHR ''*'']"

definition sanitize_filename :: "string \<Rightarrow> string" where
  "sanitize_filename name0 =
     (let name1 = replace_char NUL []
                    (replace_char BACKSLASH ''_'' (replace_char CHR ''/'' ''_'' name0));
          name2 = lstrip ''. '' name1;
          name3 = re_sub_class RESERVED CHR ''_'' name2;
          name4 = (if length name3 > 200
                   then take 180 (path_stem name3) @ path_suffix name3
                   else name3)
      in if name4 = [] then ''unnamed_file'' else name4)"


text \<open>
  The stages of \<open>sanitize_filename\<close>, named for the proofs: \<open>scrub\<close> is the three
  character passes, \<open>cut_long\<close> the length cut, \<open>FORBIDDEN\<close> the characters the
  result must not contain, and a \<open>clean\<close> string is one the character passes leave
  unchanged.
\<close>


definition FORBIDDEN :: string where
  "FORBIDDEN = [CHR ''/'', BACKSLASH, NUL] @ RESERVED"

definition scrub :: "string \<Rightarrow> string" where
  "scrub name0 =
     re_sub_class RESERVED CHR ''_''
       (lstrip ''. ''
          (replace_char NUL []
             (replace_char BACKSLASH ''_'' (replace_char CHR ''/'' ''_'' name0))))"

definition cut_long :: "string \<Rightarrow> string" where
  "cut_long s = (if length s > 200 then take 180 (path_stem s) @ path_suffix s else s)"

definition clean :: "string \<Rightarrow> bool" where
  "clean s \<longleftrightarrow> set s \<inter> set FORBIDDEN = {} \<and> (s = [] \<or> hd s \<notin> set ''. '')"

subsection \<open>Properties of the sanitizer\<close>

lemma sanitize_filename_alt:
  "sanitize_filename n = (if cut_long (scrub n) = [] then ''unnamed_file'' else cut_long (scrub n))"
  by (simp add: sanitize_filename_def scrub_def cut_long_def Let_def)

lemma set_replace_char: "set (replace_char c new s) \<subseteq> (set s - {c}) \<union> set new"
  by (induction s) (auto simp: replace_char_def)

lemma replace_char_id: "c \<notin> set s \<Longrightarrow> replace_char c new s = s"
  by (induction s) (auto simp: replace_char_def)

lemma set_lstrip: "set (lstrip cs s) \<subseteq> set s"
  unfolding lstrip_def by (rule set_dropWhileD[THEN subsetI]) 

lemma lstrip_id: "s = [] \<or> hd s \<notin> set cs \<Longrightarrow> lstrip cs s = s"
  by (cases s) (auto simp: lstrip_def)

lemma hd_lstrip: "lstrip cs s = [] \<or> hd (lstrip cs s) \<notin> set cs"
  unfolding lstrip_def using hd_dropWhile[of "\<lambda>x. x \<in> set cs" s] by blast

lemma re_sub_class_id: "set s \<inter> set cls = {} \<Longrightarrow> re_sub_class cls new s = s"
  by (induction s) (auto simp: re_sub_class_def)

lemma set_re_sub_class: "set (re_sub_class cls new s) \<subseteq> (set s - set cls) \<union> {new}"
  by (auto simp: re_sub_class_def)

lemma hd_re_sub_class:
  "s \<noteq> [] \<Longrightarrow> hd (re_sub_class cls new s) = (if hd s \<in> set cls then new else hd s)"
  by (cases s) (auto simp: re_sub_class_def)

lemma re_sub_class_Nil_iff: "re_sub_class cls new s = [] \<longleftrightarrow> s = []"
  by (simp add: re_sub_class_def)

lemma clean_scrub: "clean (scrub n)"
proof -
  let ?a = "replace_char CHR ''/'' ''_'' n"
  let ?b = "replace_char BACKSLASH ''_'' ?a"
  let ?c = "replace_char NUL [] ?b"
  let ?d = "lstrip ''. '' ?c"
  have a: "CHR ''/'' \<notin> set ?a"
    using set_replace_char[of "CHR ''/''" "''_''" n] by auto
  have b: "CHR ''/'' \<notin> set ?b" "BACKSLASH \<notin> set ?b"
    using set_replace_char[of BACKSLASH "''_''" ?a] a by (auto simp: BACKSLASH_def)
  have c: "CHR ''/'' \<notin> set ?c" "BACKSLASH \<notin> set ?c" "NUL \<notin> set ?c"
    using set_replace_char[of NUL "[]" ?b] b by auto
  have d: "CHR ''/'' \<notin> set ?d" "BACKSLASH \<notin> set ?d" "NUL \<notin> set ?d"
    using set_lstrip[of "''. ''" ?c] c by auto
  have e: "set (scrub n) \<subseteq> (set ?d - set RESERVED) \<union> {CHR ''_''}"
    unfolding scrub_def by (rule set_re_sub_class)
  have chars: "set (scrub n) \<inter> set FORBIDDEN = {}"
    using e d by (auto simp: FORBIDDEN_def RESERVED_def BACKSLASH_def NUL_def DQUOTE_def)
  have "scrub n = [] \<or> hd (scrub n) \<notin> set ''. ''"
  proof (cases "?d = []")
    case True
    then show ?thesis by (simp add: scrub_def re_sub_class_def)
  next
    case False
    with hd_lstrip[of "''. ''" ?c] have "hd ?d \<notin> set ''. ''" by blast
    with False show ?thesis
      by (simp add: scrub_def hd_re_sub_class)
  qed
  with chars show ?thesis by (simp add: clean_def)
qed

lemma scrub_clean_id: "clean s \<Longrightarrow> scrub s = s"
  unfolding clean_def scrub_def FORBIDDEN_def
  by (simp add: replace_char_id lstrip_id re_sub_class_id Int_Un_distrib)


lemma split_on_none: "c \<notin> set s \<Longrightarrow> split_on c s = [s]"
  by (induction s) auto

lemma path_name_plain:
  "CHR ''/'' \<notin> set s \<Longrightarrow> s \<noteq> [] \<Longrightarrow> hd s \<noteq> CHR ''.'' \<Longrightarrow> path_name s = s"
  by (cases s) (auto simp: path_name_def split_on_none)

lemma rfind_none:
  assumes "c \<notin> set s"
  shows "rfind c s = - 1"
proof -
  from assms have "dropWhile (\<lambda>x. x \<noteq> c) (rev s) = []"
    by (auto simp: dropWhile_eq_Nil_conv)
  then show ?thesis by (simp add: rfind_def del: dropWhile_eq_Nil_conv)
qed

lemma rfind_last:
  assumes "c \<notin> set e"
  shows "rfind c (a @ c # e) = int (length a)"
proof -
  from assms have "dropWhile (\<lambda>x. x \<noteq> c) (rev e @ c # rev a) = c # rev a"
    by (auto simp: dropWhile_append3)
  then show ?thesis by (simp add: rfind_def)
qed

lemma rfind_cases:
  "rfind c s = - 1 \<and> c \<notin> set s \<or>
   (\<exists>a e. s = a @ c # e \<and> c \<notin> set e \<and> rfind c s = int (length a))"
proof (cases "c \<in> set s")
  case False
  then show ?thesis by (simp add: rfind_none)
next
  case True
  then have "c \<in> set (rev s)" by simp
  then obtain ys zs where "rev s = ys @ c # zs" "c \<notin> set ys"
    by (meson split_list_first)
  then have s: "s = rev zs @ c # rev ys" and e: "c \<notin> set (rev ys)"
    by (simp_all add: rev_swap)
  from e have "rfind c s = int (length (rev zs))"
    unfolding s by (rule rfind_last)
  with s e show ?thesis by blast
qed

text \<open>The two shapes of a plain name: cut at its last dot, or not cut at all.\<close>

lemma stem_suffix_cases:
  assumes "CHR ''/'' \<notin> set s" "s \<noteq> []" "hd s \<noteq> CHR ''.''"
  shows "(\<exists>a e. s = a @ CHR ''.'' # e \<and> a \<noteq> [] \<and> e \<noteq> [] \<and> CHR ''.'' \<notin> set e \<and>
            path_stem s = a \<and> path_suffix s = CHR ''.'' # e)
         \<or> (path_stem s = s \<and> path_suffix s = [])"
proof -
  have n: "path_name s = s" using assms by (rule path_name_plain)
  from rfind_cases[of "CHR ''.''" s] show ?thesis
  proof
    assume "rfind CHR ''.'' s = - 1 \<and> CHR ''.'' \<notin> set s"
    then have "path_stem s = s \<and> path_suffix s = []"
      by (simp add: path_stem_def path_suffix_def n)
    then show ?thesis by (rule disjI2)
  next
    assume "\<exists>a e. s = a @ CHR ''.'' # e \<and> CHR ''.'' \<notin> set e \<and> rfind CHR ''.'' s = int (length a)"
    then obtain a e where s: "s = a @ CHR ''.'' # e" and e: "CHR ''.'' \<notin> set e"
      and r: "rfind CHR ''.'' s = int (length a)" by blast
    show ?thesis
    proof (cases "a \<noteq> [] \<and> e \<noteq> []")
      case True
      have len: "int (length s) = int (length a) + 1 + int (length e)"
        by (simp add: s)
      have "0 < int (length a) \<and> int (length a) < int (length s) - 1"
        using True len by (cases e; cases a) auto
      moreover have "take (length a) s = a" "drop (length a) s = CHR ''.'' # e"
        by (simp_all add: s)
      ultimately have "path_stem s = a \<and> path_suffix s = CHR ''.'' # e"
        by (simp add: path_stem_def path_suffix_def n r Let_def)
      with True s e show ?thesis by blast
    next
      case False
      have len: "int (length s) = int (length a) + 1 + int (length e)"
        by (simp add: s)
      have "\<not> (0 < int (length a) \<and> int (length a) < int (length s) - 1)"
        using False len by auto
      then have "path_stem s = s \<and> path_suffix s = []"
        by (simp add: path_stem_def path_suffix_def n r Let_def)
      then show ?thesis by (rule disjI2)
    qed
  qed
qed

lemma stem_suffix_cut:
  assumes "CHR ''/'' \<notin> set a" "CHR ''/'' \<notin> set e" "a \<noteq> []" "hd a \<noteq> CHR ''.''"
    "e \<noteq> []" "CHR ''.'' \<notin> set e"
  shows "path_stem (a @ CHR ''.'' # e) = a \<and> path_suffix (a @ CHR ''.'' # e) = CHR ''.'' # e"
proof -
  let ?s = "a @ CHR ''.'' # e"
  have n: "path_name ?s = ?s" using assms by (intro path_name_plain) auto
  have r: "rfind CHR ''.'' ?s = int (length a)" using assms by (simp add: rfind_last)
  have "0 < int (length a) \<and> int (length a) < int (length ?s) - 1"
    using assms by (cases e; cases a) auto
  then show ?thesis by (simp add: path_stem_def path_suffix_def n r Let_def)
qed

lemma cut_long_clean: 
  assumes "clean s"
  shows "clean (cut_long s) \<and> cut_long (cut_long s) = cut_long s"
proof (cases "length s > 200")
  case False
  then show ?thesis using assms by (simp add: cut_long_def)
next
  case True
  then have ne: "s \<noteq> []" by auto
  from assms have sl: "CHR ''/'' \<notin> set s" and hd: "hd s \<notin> set ''. ''" using ne
    by (auto simp: clean_def FORBIDDEN_def)
  then have hd': "hd s \<noteq> CHR ''.''" by auto
  from stem_suffix_cases[OF sl ne hd'] show ?thesis
  proof
    assume "\<exists>a e. s = a @ CHR ''.'' # e \<and> a \<noteq> [] \<and> e \<noteq> [] \<and> CHR ''.'' \<notin> set e \<and>
            path_stem s = a \<and> path_suffix s = CHR ''.'' # e"
    then obtain a e where s: "s = a @ CHR ''.'' # e" and a: "a \<noteq> []" and e: "e \<noteq> []"
      "CHR ''.'' \<notin> set e" and st: "path_stem s = a" "path_suffix s = CHR ''.'' # e" by blast
    let ?r = "take 180 a @ CHR ''.'' # e"
    have r: "cut_long s = ?r" using True st by (simp add: cut_long_def)
    have ta: "take 180 a \<noteq> []" "hd (take 180 a) = hd a" using a by (cases a; simp)+
    have sub: "set ?r \<subseteq> set s" using s set_take_subset[of 180 a] by auto
    have hdr: "hd ?r = hd s" using ta a s by simp
    have cl: "clean ?r" using assms sub hdr hd by (auto simp: clean_def)
    have "path_stem ?r = take 180 a \<and> path_suffix ?r = CHR ''.'' # e"
    proof (rule stem_suffix_cut)
      show "CHR ''/'' \<notin> set (take 180 a)" using sub sl by auto
      show "CHR ''/'' \<notin> set e" using sub sl by auto
      show "take 180 a \<noteq> []" by (rule ta)
      show "hd (take 180 a) \<noteq> CHR ''.''" using ta hd' a s by simp
      show "e \<noteq> []" "CHR ''.'' \<notin> set e" by (rule e)+
    qed
    then have "cut_long ?r = ?r" by (simp add: cut_long_def)
    with r cl show ?thesis by simp
  next
    assume st: "path_stem s = s \<and> path_suffix s = []"
    then have r: "cut_long s = take 180 s" using True by (simp add: cut_long_def)
    have "clean (take 180 s)" using assms ne set_take_subset[of 180 s] 
      by (cases s) (auto simp: clean_def)
    moreover have "cut_long (take 180 s) = take 180 s" by (simp add: cut_long_def)
    ultimately show ?thesis using r by simp
  qed
qed

text \<open>
  The character and non-emptiness parts of the sanitizer's contract hold for every input.
\<close>

lemma sanitize_filename_chars:
  "set (sanitize_filename x) \<inter> set FORBIDDEN = {} \<and> sanitize_filename x \<noteq> []"
proof -
  have "clean (cut_long (scrub x))"
    using cut_long_clean[OF clean_scrub[of x]] by simp
  then have "set (cut_long (scrub x)) \<inter> set FORBIDDEN = {}"
    by (simp add: clean_def)
  moreover have "set ''unnamed_file'' \<inter> set FORBIDDEN = {}"
    by (simp add: FORBIDDEN_def RESERVED_def BACKSLASH_def NUL_def DQUOTE_def)
  ultimately show ?thesis
    by (simp add: sanitize_filename_alt[of x])
qed

text \<open>
  Claim C2. The output of the sanitizer never contains a separator, a null byte or a
  reserved character, is never empty, and is at most 200 characters long. The length
  bound is what the code misses: only the stem is cut (to 180 characters), the suffix
  is appended at its full length. The name \<open>a.bbb...b\<close> with 200 letters \<open>b\<close> has
  202 characters, the stem \<open>a\<close> and a suffix of 201 characters, and is returned
  as it is.
\<close>

theorem sanitize_filename_long_suffix:
  "sanitize_filename (''a.'' @ replicate 200 CHR ''b'') = ''a.'' @ replicate 200 CHR ''b'' \<and>
   length (sanitize_filename (''a.'' @ replicate 200 CHR ''b'')) = 202"
  by code_simp

lemma sanitize_unnamed: "sanitize_filename ''unnamed_file'' = ''unnamed_file''"
  by code_simp

text \<open>
  Claim C7. The filename sanitizer is idempotent: sanitizing an already sanitized name
  returns it unchanged, for every input string.
\<close>

theorem sanitize_idem: "sanitize_filename (sanitize_filename x) = sanitize_filename x"
proof -
  let ?t = "cut_long (scrub x)"
  have c: "clean ?t" and i: "cut_long ?t = ?t"
    using cut_long_clean[OF clean_scrub[of x]] by simp_all
  show ?thesis
  proof (cases "?t = []")
    case True
    then show ?thesis by (simp add: sanitize_filename_alt[of x] sanitize_unnamed)
  next
    case False
    then have "sanitize_filename x = ?t" by (simp add: sanitize_filename_alt[of x])
    moreover have "sanitize_filename ?t = ?t"
      using False c i by (simp add: sanitize_filename_alt[of ?t] scrub_clean_id)
    ultimately show ?thesis by simp
  qed
qed



section \<open>URL extraction (services/link\_router.py)\<close>

text \<open>
  \<open>URL_PATTERN\<close> is \<open>https?://[^\s<>"')\]]+\<close>, compiled with \<open>re.IGNORECASE\<close>.
  \<open>is_space\<close> is the class \<open>\s\<close> of a \<open>str\<close> pattern on the code points below 256;
  \<open>url_body_char\<close> is the negated class; \<open>scheme_len\<close> matches the scheme,
  ignoring case, and gives its length; \<open>match_at\<close> is a match of the whole pattern
  at the start of a string (the body is greedy and nothing follows it, so the match is
  the longest one).
\<close>

definition is_space :: "char \<Rightarrow> bool" where
  "is_space c =
     (let n = (of_char c :: nat)
      in (9 \<le> n \<and> n \<le> 13) \<or> (28 \<le> n \<and> n \<le> 32) \<or> n = 0x85 \<or> n = 0xA0)"

definition ascii_lower :: "char \<Rightarrow> char" where
  "ascii_lower c =
     (let n = (of_char c :: nat)
      in if 65 \<le> n \<and> n \<le> 90 then char_of (n + 32) else c)"

definition url_body_char :: "char \<Rightarrow> bool" where
  "url_body_char c \<longleftrightarrow>
     \<not> is_space c \<and> c \<notin> set [CHR ''<'', CHR ''>'', DQUOTE, SQUOTE, CHR '')'', CHR '']'']"

definition scheme_len :: "string \<Rightarrow> nat option" where
  "scheme_len s =
     (if map ascii_lower (take 8 s) = ''https://'' then Some 8
      else if map ascii_lower (take 7 s) = ''http://'' then Some 7
      else None)"

definition match_at :: "string \<Rightarrow> string option" where
  "match_at s =
     (case scheme_len s of
        None \<Rightarrow> None
      | Some k \<Rightarrow>
          (let body = takeWhile url_body_char (drop k s)
           in if body = [] then None else Some (take k s @ body)))"

text \<open>
  \<open>URL_PATTERN.findall(text)\<close>: the matches from left to right, the scan resuming at
  the end of a match, or one character further when there is none.
\<close>

lemma match_at_length:
  "match_at s = Some m \<Longrightarrow> 0 < length m"
  by (auto simp: match_at_def Let_def split: option.splits if_splits)

function findall :: "string \<Rightarrow> string list" where
  "findall s =
     (if s = [] then []
      else (case match_at s of
              Some m \<Rightarrow> m # findall (drop (length m) s)
            | None \<Rightarrow> findall (tl s)))"
  by pat_completeness auto
termination
proof (relation "measure length")
  show "wf (measure length)" by simp
next
  fix s :: string and m
  assume "s \<noteq> []" "match_at s = Some m"
  then show "(drop (length m) s, s) \<in> measure length"
    using match_at_length[of s m] by (cases s) auto
next
  fix s :: string
  assume "s \<noteq> []" "match_at s = None"
  then show "(tl s, s) \<in> measure length" by (cases s) auto
qed

declare findall.simps [simp del]

text \<open>The loop of \<open>extract_urls\<close> over the raw matches, with its list \<open>cleaned\<close>.\<close>

definition PUNCT :: string where
  "PUNCT = ''.,;:!?)''"

fun clean_loop :: "string list \<Rightarrow> string list \<Rightarrow> string list" where
  "clean_loop [] cleaned = cleaned"
| "clean_loop (url0 # raw) cleaned =
     (let url = rstrip PUNCT url0
      in if url \<noteq> [] \<and> length url > 10
         then clean_loop raw (cleaned @ [url])
         else clean_loop raw cleaned)"

definition extract_urls :: "string \<Rightarrow> string list" where
  "extract_urls txt = clean_loop (findall txt) []"


lemma clean_loop_filter:
  "clean_loop raw cleaned =
     cleaned @ filter (\<lambda>u. 10 < length u) (map (rstrip PUNCT) raw)"
  by (induction raw arbitrary: cleaned) (auto simp: Let_def)

lemma rstrip_last:
  assumes "rstrip cs s \<noteq> []"
  shows "last (rstrip cs s) \<notin> set cs"
proof -
  let ?d = "dropWhile (\<lambda>x. x \<in> set cs) (rev s)"
  from assms have ne: "?d \<noteq> []" by (simp add: rstrip_def)
  then have "hd ?d \<notin> set cs" by (rule hd_dropWhile)
  moreover have "last (rev ?d) = hd ?d" using ne by (simp add: last_rev)
  ultimately show ?thesis by (simp add: rstrip_def)
qed

text \<open>
  Claim C8. \<open>extract_urls\<close> strips the trailing characters \<open>.,;:!?)\<close> from every
  match and keeps the stripped matches longer than 10 characters, in their order of
  appearance and with their repetitions: the result is the filtered list of the
  stripped matches. No returned URL has 10 characters or fewer or ends with one of the
  stripped characters. On the text of the specification's example the result is the
  two URLs, and a URL that occurs twice is returned twice.
\<close>

theorem extract_urls_spec:
  "extract_urls txt = filter (\<lambda>u. 10 < length u) (map (rstrip PUNCT) (findall txt)) \<and>
   (\<forall>u \<in> set (extract_urls txt). 10 < length u \<and> last u \<notin> set PUNCT) \<and>
   extract_urls ''grab http://x.test/a.zip please, also http://x.test/b.zip.''
     = [''http://x.test/a.zip'', ''http://x.test/b.zip''] \<and>
   extract_urls ''http://x.test/a.zip http://x.test/a.zip''
     = [''http://x.test/a.zip'', ''http://x.test/a.zip'']"
proof (intro conjI ballI)
  show eq: "extract_urls txt = filter (\<lambda>u. 10 < length u) (map (rstrip PUNCT) (findall txt))"
    by (simp add: extract_urls_def clean_loop_filter)
  show "extract_urls ''grab http://x.test/a.zip please, also http://x.test/b.zip.''
     = [''http://x.test/a.zip'', ''http://x.test/b.zip'']"
    by code_simp
  show "extract_urls ''http://x.test/a.zip http://x.test/a.zip''
     = [''http://x.test/a.zip'', ''http://x.test/a.zip'']"
    by code_simp
next
  fix u assume "u \<in> set (extract_urls txt)"
  then obtain r where u: "u = rstrip PUNCT r" and len: "10 < length u"
    by (auto simp: extract_urls_def clean_loop_filter)
  from len show "10 < length u" .
  from len have "rstrip PUNCT r \<noteq> []" using u by auto
  then show "last u \<notin> set PUNCT" unfolding u by (rule rstrip_last)
qed

theorem extract_urls_spec_witness:
  "extract_urls ''see http://x.test/a.zip, or http://a.b.'' = [''http://x.test/a.zip''] \<and>
   10 < length ''http://x.test/a.zip'' \<and> last ''http://x.test/a.zip'' \<notin> set PUNCT"
proof -
  have ev: "extract_urls ''see http://x.test/a.zip, or http://a.b.'' = [''http://x.test/a.zip'']"
    by code_simp
  from extract_urls_spec[of "''see http://x.test/a.zip, or http://a.b.''"]
  have "\<forall>u \<in> set (extract_urls ''see http://x.test/a.zip, or http://a.b.'').
          10 < length u \<and> last u \<notin> set PUNCT"
    by blast
  then have "10 < length ''http://x.test/a.zip'' \<and> last ''http://x.test/a.zip'' \<notin> set PUNCT"
    unfolding ev by simp
  with ev show ?thesis by blast
qed

section \<open>Streaming downloader (utils/downloader.py)\<close>

text \<open>
  The session directory is a finite map from paths to file contents. What the network
  does in one attempt is an input of the model (a \<open>fetch\<close>): \<open>session.get\<close> raises, or
  it answers with a status, an optional \<open>Content-Length\<close> and a body that
  \<open>iter_chunked\<close> delivers as a list of chunks, ending normally or with an exception.
  The per-attempt timeout shows as the exception \<open>TimeoutError\<close>. Every function
  returns, with its result and the new directory, the list of the effects it performed
  (attempts, sleeps, file operations with the size of the file after a write, progress
  callbacks), in order. Logging is left out; the file operations themselves do not fail.
\<close>

type_synonym fs = "(string, bytes) fmap"

datatype exn = TimeoutError | ClientError | OtherError

datatype event =
    Attempt int
  | Sleep int
  | Opened string
  | Wrote string nat
  | Unlinked string
  | Progress int int

datatype stream_end = Eof | Broken exn

record response =
  status :: int
  content_length_header :: "int option"
  chunks :: "bytes list"
  ending :: stream_end

datatype fetch = Failed exn | Responded response

text \<open>\<open>open(p, "wb")\<close>, \<open>fp.write(chunk)\<close>, \<open>p.unlink(missing_ok=True)\<close>, \<open>p.exists()\<close>.\<close>

definition exists_file :: "fs \<Rightarrow> string \<Rightarrow> bool" where
  "exists_file files p \<longleftrightarrow> fmlookup files p \<noteq> None"

definition open_wb :: "string \<Rightarrow> fs \<Rightarrow> fs" where
  "open_wb p files = fmupd p [] files"

definition file_bytes :: "fs \<Rightarrow> string \<Rightarrow> bytes" where
  "file_bytes files p = (case fmlookup files p of None \<Rightarrow> [] | Some b \<Rightarrow> b)"

definition write_chunk :: "string \<Rightarrow> bytes \<Rightarrow> fs \<Rightarrow> fs" where
  "write_chunk p chunk files = fmupd p (file_bytes files p @ chunk) files"

definition unlink :: "string \<Rightarrow> fs \<Rightarrow> fs" where
  "unlink p files = fmdrop p files"

text \<open>
  The loop \<open>async for chunk in resp.content.iter_chunked(CHUNK_SIZE)\<close> of
  \<open>_stream_download\<close>: the chunk is counted, the total is compared with \<open>max_size\<close>,
  and only then the chunk is written and the callback (when one is given, \<open>cb\<close>) called.
\<close>

fun stream_chunks ::
  "string \<Rightarrow> bool \<Rightarrow> int \<Rightarrow> int \<Rightarrow> bytes list \<Rightarrow> stream_end \<Rightarrow> int \<Rightarrow> fs
     \<Rightarrow> (exn + string option) \<times> fs \<times> event list" where
  "stream_chunks dest_path cb max_size content_length [] Eof downloaded files =
     (Inr (Some dest_path), files, [])"
| "stream_chunks dest_path cb max_size content_length [] (Broken e) downloaded files =
     (Inl e, files, [])"
| "stream_chunks dest_path cb max_size content_length (chunk # rest) fin downloaded0 files =
     (let downloaded = downloaded0 + int (length chunk)
      in if downloaded > max_size
         then (Inr None, unlink dest_path files, [Unlinked dest_path])
         else (let files1 = write_chunk dest_path chunk files;
                   evs = Wrote dest_path (length (file_bytes files1 dest_path))
                         # (if cb then [Progress downloaded content_length] else []);
                   (res, files2, more) =
                      stream_chunks dest_path cb max_size content_length rest fin downloaded files1
               in (res, files2, evs @ more)))"

text \<open>
  \<open>_stream_download\<close>: the status check, the pre-flight check of the declared length,
  then the file is opened and the body streamed.
\<close>

definition stream_download ::
  "fetch \<Rightarrow> string \<Rightarrow> bool \<Rightarrow> int \<Rightarrow> fs \<Rightarrow> (exn + string option) \<times> fs \<times> event list" where
  "stream_download f dest_path cb max_size files =
     (case f of
        Failed e \<Rightarrow> (Inl e, files, [])
      | Responded resp \<Rightarrow>
          if status resp \<noteq> 200 then (Inr None, files, [])
          else (let content_length =
                      (case content_length_header resp of None \<Rightarrow> 0 | Some n \<Rightarrow> n)
                in if content_length \<noteq> 0 \<and> content_length > max_size
                   then (Inr None, files, [])
                   else (let (res, files1, evs) =
                               stream_chunks dest_path cb max_size content_length
                                 (chunks resp) (ending resp) 0 (open_wb dest_path files)
                         in (res, files1, Opened dest_path # evs))))"

text \<open>
  \<open>download_file\<close> from its retry loop on, for the destination path \<open>dest_path\<close> that
  its first lines have chosen: \<open>attempts\<close> is the loop over \<open>range(1, retries + 1)\<close>
  (all three \<open>except\<close> clauses only log, so an exception and the result \<open>None\<close> both
  fall through to the back-off), \<open>download_to\<close> adds the final \<open>unlink\<close>.
\<close>

fun attempts ::
  "int list \<Rightarrow> int \<Rightarrow> (int \<Rightarrow> fetch) \<Rightarrow> string \<Rightarrow> bool \<Rightarrow> int \<Rightarrow> fs
     \<Rightarrow> string option \<times> fs \<times> event list" where
  "attempts [] retries net dest_path cb max_size files = (None, files, [])"
| "attempts (attempt # later) retries net dest_path cb max_size files =
     (let (res, files1, evs) = stream_download (net attempt) dest_path cb max_size files
      in case res of
           Inr (Some result) \<Rightarrow> (Some result, files1, Attempt attempt # evs)
         | _ \<Rightarrow>
            (let pause = (if attempt < retries then [Sleep (2 ^ nat attempt)] else []);
                 (res2, files2, more) = attempts later retries net dest_path cb max_size files1
             in (res2, files2, Attempt attempt # evs @ pause @ more)))"

definition download_to ::
  "string \<Rightarrow> bool \<Rightarrow> int \<Rightarrow> int \<Rightarrow> (int \<Rightarrow> fetch) \<Rightarrow> fs \<Rightarrow> string option \<times> fs \<times> event list" where
  "download_to dest_path cb max_size retries net files =
     (case attempts [1..retries] retries net dest_path cb max_size files of
        (Some result, files1, evs) \<Rightarrow> (Some result, files1, evs)
      | (None, files1, evs) \<Rightarrow> (None, unlink dest_path files1, evs @ [Unlinked dest_path]))"


text \<open>
  The responses the claims speak of: a body larger than \<open>max_size\<close>, and an attempt
  that ends in an exception (at the connection, or in the body before any size check
  rejects it). The projections read the attempt numbers, the delays and the sizes of the
  destination file off a list of effects.
\<close>

definition body_size :: "response \<Rightarrow> int" where
  "body_size resp = sum_list (map (\<lambda>c. int (length c)) (chunks resp))"

definition declared_length :: "response \<Rightarrow> int" where
  "declared_length resp = (case content_length_header resp of None \<Rightarrow> 0 | Some n \<Rightarrow> n)"

definition oversized :: "int \<Rightarrow> fetch \<Rightarrow> bool" where
  "oversized max_size f =
     (case f of Failed e \<Rightarrow> False | Responded resp \<Rightarrow> max_size < body_size resp)"

definition transport_error :: "int \<Rightarrow> fetch \<Rightarrow> bool" where
  "transport_error max_size f =
     (case f of
        Failed e \<Rightarrow> True
      | Responded resp \<Rightarrow>
          status resp = 200 \<and> \<not> (declared_length resp \<noteq> 0 \<and> declared_length resp > max_size)
          \<and> body_size resp \<le> max_size \<and> ending resp \<noteq> Eof)"

fun is_schedule :: "event \<Rightarrow> bool" where
  "is_schedule (Attempt a) = True"
| "is_schedule (Sleep d) = True"
| "is_schedule e = False"

fun attempt_numbers :: "event list \<Rightarrow> int list" where
  "attempt_numbers [] = []"
| "attempt_numbers (Attempt a # evs) = a # attempt_numbers evs"
| "attempt_numbers (e # evs) = attempt_numbers evs"

fun sleep_delays :: "event list \<Rightarrow> int list" where
  "sleep_delays [] = []"
| "sleep_delays (Sleep d # evs) = d # sleep_delays evs"
| "sleep_delays (e # evs) = sleep_delays evs"

fun disk_sizes :: "event list \<Rightarrow> nat list" where
  "disk_sizes [] = []"
| "disk_sizes (Opened p # evs) = 0 # disk_sizes evs"
| "disk_sizes (Wrote p n # evs) = n # disk_sizes evs"
| "disk_sizes (e # evs) = disk_sizes evs"

subsection \<open>Properties of the downloader\<close>

lemma file_bytes_write [simp]:
  "file_bytes (write_chunk p chunk files) p = file_bytes files p @ chunk"
  by (simp add: file_bytes_def write_chunk_def)

lemma lookup_write_other [simp]:
  "q \<noteq> p \<Longrightarrow> fmlookup (write_chunk p chunk files) q = fmlookup files q"
  by (simp add: write_chunk_def)

lemma lookup_unlink [simp]:
  "fmlookup (unlink p files) q = (if p = q then None else fmlookup files q)"
  by (auto simp: unlink_def)

lemma file_bytes_open [simp]: "file_bytes (open_wb p files) p = []"
  by (simp add: file_bytes_def open_wb_def)

lemma lookup_open_other [simp]:
  "q \<noteq> p \<Longrightarrow> fmlookup (open_wb p files) q = fmlookup files q"
  by (simp add: open_wb_def)

text \<open>The streaming loop, with \<open>downloaded\<close> equal to the size of the file so far.\<close>

lemma stream_chunks_wrote:
  assumes "stream_chunks dest cb max_size cl cs fin d files = (res, files', evs)"
    and "d = int (length (file_bytes files dest))"
    and "Wrote p n \<in> set evs"
  shows "p = dest \<and> int n \<le> max_size"
  using assms
proof (induction cs arbitrary: d files res files' evs)
  case Nil
  then show ?case by (cases fin) auto
next
  case (Cons chunk rest)
  let ?d = "d + int (length chunk)"
  show ?case
  proof (cases "?d > max_size")
    case True
    with Cons.prems show ?thesis by (auto simp: Let_def)
  next
    case False
    let ?f1 = "write_chunk dest chunk files"
    obtain r f2 more where rec: "stream_chunks dest cb max_size cl rest fin ?d ?f1 = (r, f2, more)"
      by (cases "stream_chunks dest cb max_size cl rest fin ?d ?f1") auto
    have evs: "evs = Wrote dest (length (file_bytes ?f1 dest))
                 # (if cb then [Progress ?d cl] else []) @ more"
      using Cons.prems(1) False rec by (auto simp: Let_def)
    have inv: "?d = int (length (file_bytes ?f1 dest))"
      using Cons.prems(2) by simp
    from Cons.prems(3) evs
    consider "Wrote p n = Wrote dest (length (file_bytes ?f1 dest))" | "Wrote p n \<in> set more"
      by (auto split: if_splits)
    then show ?thesis
    proof cases
      case 1
      then show ?thesis using inv False by auto
    next
      case 2
      from Cons.IH[OF rec inv 2] show ?thesis .
    qed
  qed
qed

lemma stream_chunks_result:
  assumes "stream_chunks dest cb max_size cl cs fin d files = (res, files', evs)"
  shows "(\<forall>q. q \<noteq> dest \<longrightarrow> fmlookup files' q = fmlookup files q) \<and>
         (res = Inr None \<longrightarrow> fmlookup files' dest = None) \<and>
         (\<forall>r. res = Inr (Some r) \<longrightarrow> r = dest \<and> fin = Eof \<and>
               (fmlookup files dest \<noteq> None \<longrightarrow>
                  fmlookup files' dest = Some (file_bytes files dest @ concat cs))) \<and>
         filter is_schedule evs = []"
  using assms
proof (induction cs arbitrary: d files res files' evs)
  case Nil
  then show ?case by (cases fin) (auto simp: file_bytes_def)
next
  case (Cons chunk rest)
  let ?d = "d + int (length chunk)"
  show ?case
  proof (cases "?d > max_size")
    case True
    with Cons.prems show ?thesis by (auto simp: Let_def)
  next
    case False
    let ?f1 = "write_chunk dest chunk files"
    obtain r f2 more where rec: "stream_chunks dest cb max_size cl rest fin ?d ?f1 = (r, f2, more)"
      by (cases "stream_chunks dest cb max_size cl rest fin ?d ?f1") auto
    have eq: "res = r" "files' = f2"
      "evs = Wrote dest (length (file_bytes ?f1 dest))
                 # (if cb then [Progress ?d cl] else []) @ more"
      using Cons.prems(1) False rec by (auto simp: Let_def)
    have present: "fmlookup ?f1 dest \<noteq> None" by (simp add: write_chunk_def)
    from Cons.IH[OF rec] present show ?thesis
      unfolding eq by auto
  qed
qed

lemma stream_chunks_exceed:
  assumes "d \<le> max_size"
    and "max_size < d + sum_list (map (\<lambda>c. int (length c)) cs)"
  shows "fst (stream_chunks dest cb max_size cl cs fin d files) = Inr None"
  using assms
proof (induction cs arbitrary: d files)
  case Nil
  then show ?case by simp
next
  case (Cons chunk rest)
  let ?d = "d + int (length chunk)"
  show ?case
  proof (cases "?d > max_size")
    case True
    then show ?thesis by (simp add: Let_def)
  next
    case False
    obtain r f2 more where
      rec: "stream_chunks dest cb max_size cl rest fin ?d (write_chunk dest chunk files) = (r, f2, more)"
      by (metis prod_cases3)
    have "fst (stream_chunks dest cb max_size cl rest fin ?d (write_chunk dest chunk files)) = Inr None"
      using False Cons.prems by (intro Cons.IH) auto
    then have "r = Inr None" using rec by simp
    with False rec show ?thesis
      by (simp add: Let_def)
  qed
qed

lemma stream_chunks_broken:
  assumes "d + sum_list (map (\<lambda>c. int (length c)) cs) \<le> max_size"
  shows "fst (stream_chunks dest cb max_size cl cs (Broken e) d files) = Inl e"
  using assms
proof (induction cs arbitrary: d files)
  case Nil
  then show ?case by simp
next
  case (Cons chunk rest)
  let ?d = "d + int (length chunk)"
  have le: "\<not> ?d > max_size"
  proof -
    have "0 \<le> sum_list (map (\<lambda>c. int (length c)) rest)"
      by (rule sum_list_nonneg) auto
    with Cons.prems show ?thesis by simp
  qed
  obtain r f2 more where
    rec: "stream_chunks dest cb max_size cl rest (Broken e) ?d (write_chunk dest chunk files) = (r, f2, more)"
    by (metis prod_cases3)
  have "fst (stream_chunks dest cb max_size cl rest (Broken e) ?d (write_chunk dest chunk files)) = Inl e"
    using Cons.prems by (intro Cons.IH) (simp add: add.assoc)
  then have "r = Inl e" using rec by simp
  with le rec show ?case
    by (simp add: Let_def)
qed


lemma stream_download_effects:
  assumes "stream_download f dest cb max_size files = (res, files', evs)"
  shows "(\<forall>q. q \<noteq> dest \<longrightarrow> fmlookup files' q = fmlookup files q) \<and>
         (\<forall>r. res = Inr (Some r) \<longrightarrow> r = dest \<and>
               (\<exists>resp. f = Responded resp \<and> fmlookup files' dest = Some (concat (chunks resp)))) \<and>
         filter is_schedule evs = []"
proof (cases f)
  case (Failed e)
  with assms show ?thesis by (auto simp: stream_download_def)
next
  case (Responded resp)
  consider (bad) "status resp \<noteq> 200"
    | (pre) "status resp = 200" "declared_length resp \<noteq> 0 \<and> declared_length resp > max_size"
    | (go) "status resp = 200" "\<not> (declared_length resp \<noteq> 0 \<and> declared_length resp > max_size)"
    by blast
  then show ?thesis
  proof cases
    case bad
    with assms Responded show ?thesis by (auto simp: stream_download_def)
  next
    case pre
    with assms Responded show ?thesis
      by (auto simp: stream_download_def declared_length_def Let_def)
  next
    case go
    obtain r f2 more where rec:
      "stream_chunks dest cb max_size (declared_length resp) (chunks resp) (ending resp) 0
         (open_wb dest files) = (r, f2, more)"
      by (metis prod_cases3)
    have "stream_download f dest cb max_size files = (r, f2, Opened dest # more)"
      using Responded go rec by (simp add: stream_download_def declared_length_def Let_def)
    with assms have eq: "res = r" "files' = f2" "evs = Opened dest # more" by simp_all
    have op: "fmlookup (open_wb dest files) dest \<noteq> None" by (simp add: open_wb_def)
    from stream_chunks_result[OF rec] op Responded show ?thesis
      unfolding eq by auto
  qed
qed

text \<open>What one attempt does for the three kinds of response the claims speak of.\<close>

lemma stream_download_preflight:
  assumes "status resp = 200" "declared_length resp > max_size" "declared_length resp \<noteq> 0"
  shows "stream_download (Responded resp) dest cb max_size files = (Inr None, files, [])"
  using assms by (simp add: stream_download_def declared_length_def Let_def)

lemma stream_download_oversized:
  assumes "oversized max_size f" "0 \<le> max_size"
  shows "fst (stream_download f dest cb max_size files) = Inr None"
proof -
  from assms(1) obtain resp where f: "f = Responded resp" and big: "max_size < body_size resp"
    by (cases f) (auto simp: oversized_def)
  consider (bad) "status resp \<noteq> 200"
    | (pre) "status resp = 200" "declared_length resp \<noteq> 0 \<and> declared_length resp > max_size"
    | (go) "status resp = 200" "\<not> (declared_length resp \<noteq> 0 \<and> declared_length resp > max_size)"
    by blast
  then show ?thesis
  proof cases
    case bad
    then show ?thesis by (simp add: f stream_download_def)
  next
    case pre
    then show ?thesis by (simp add: f stream_download_def declared_length_def Let_def)
  next
    case go
    obtain r f2 more where rec:
      "stream_chunks dest cb max_size (declared_length resp) (chunks resp) (ending resp) 0
         (open_wb dest files) = (r, f2, more)"
      by (metis prod_cases3)
    have "fst (stream_chunks dest cb max_size (declared_length resp) (chunks resp) (ending resp) 0
         (open_wb dest files)) = Inr None"
      using assms(2) big by (intro stream_chunks_exceed) (simp_all add: body_size_def)
    then have "r = Inr None" using rec by simp
    then show ?thesis
      using go rec by (simp add: f stream_download_def declared_length_def Let_def)
  qed
qed

lemma stream_download_midstream:
  assumes "status resp = 200" "\<not> (declared_length resp \<noteq> 0 \<and> declared_length resp > max_size)"
    "max_size < body_size resp" "0 \<le> max_size"
    "stream_download (Responded resp) dest cb max_size files = (res, files', evs)"
  shows "res = Inr None \<and> fmlookup files' dest = None"
proof -
  obtain r f2 more where rec:
    "stream_chunks dest cb max_size (declared_length resp) (chunks resp) (ending resp) 0
       (open_wb dest files) = (r, f2, more)"
    by (metis prod_cases3)
  have "stream_download (Responded resp) dest cb max_size files = (r, f2, Opened dest # more)"
    using assms(1,2) rec by (simp add: stream_download_def declared_length_def Let_def)
  with assms(5) have eq: "res = r" "files' = f2" by simp_all
  have "fst (stream_chunks dest cb max_size (declared_length resp) (chunks resp) (ending resp) 0
         (open_wb dest files)) = Inr None"
    using assms(3,4) by (intro stream_chunks_exceed) (simp_all add: body_size_def)
  then have "r = Inr None" using rec by simp
  with stream_chunks_result[OF rec] show ?thesis unfolding eq by simp
qed

lemma stream_download_transport_error:
  assumes "transport_error max_size f"
  shows "\<exists>e. fst (stream_download f dest cb max_size files) = Inl e"
proof (cases f)
  case (Failed e)
  then show ?thesis by (simp add: stream_download_def)
next
  case (Responded resp)
  with assms have st: "status resp = 200"
    and pre: "\<not> (declared_length resp \<noteq> 0 \<and> declared_length resp > max_size)"
    and sz: "body_size resp \<le> max_size" and en: "ending resp \<noteq> Eof"
    by (auto simp: transport_error_def)
  from en obtain e where e: "ending resp = Broken e" by (cases "ending resp") auto
  obtain r f2 more where rec:
    "stream_chunks dest cb max_size (declared_length resp) (chunks resp) (ending resp) 0
       (open_wb dest files) = (r, f2, more)"
    by (metis prod_cases3)
  have "fst (stream_chunks dest cb max_size (declared_length resp) (chunks resp) (Broken e) 0
         (open_wb dest files)) = Inl e"
    using sz by (intro stream_chunks_broken) (simp add: body_size_def)
  then have "r = Inl e" using rec e by simp
  then have "fst (stream_download f dest cb max_size files) = Inl e"
    using Responded st pre rec by (simp add: stream_download_def declared_length_def Let_def)
  then show ?thesis ..
qed

lemma stream_download_wrote:
  assumes "stream_download f dest cb max_size files = (res, files', evs)"
    and "Wrote p n \<in> set evs"
  shows "p = dest \<and> int n \<le> max_size"
proof (cases f)
  case (Failed e)
  with assms show ?thesis by (auto simp: stream_download_def)
next
  case (Responded resp)
  consider (bad) "status resp \<noteq> 200"
    | (pre) "status resp = 200" "declared_length resp \<noteq> 0 \<and> declared_length resp > max_size"
    | (go) "status resp = 200" "\<not> (declared_length resp \<noteq> 0 \<and> declared_length resp > max_size)"
    by blast
  then show ?thesis
  proof cases
    case bad
    with assms Responded show ?thesis by (auto simp: stream_download_def)
  next
    case pre
    with assms Responded show ?thesis
      by (auto simp: stream_download_def declared_length_def Let_def)
  next
    case go
    obtain r f2 more where rec:
      "stream_chunks dest cb max_size (declared_length resp) (chunks resp) (ending resp) 0
         (open_wb dest files) = (r, f2, more)"
      by (metis prod_cases3)
    have "stream_download f dest cb max_size files = (r, f2, Opened dest # more)"
      using Responded go rec by (simp add: stream_download_def declared_length_def Let_def)
    with assms have "Wrote p n \<in> set more" by auto
    with stream_chunks_wrote[OF rec] show ?thesis by simp
  qed
qed


text \<open>The retry loop when no attempt returns a path.\<close>

definition schedule :: "int \<Rightarrow> int list \<Rightarrow> event list" where
  "schedule retries as =
     concat (map (\<lambda>a. if a < retries then [Attempt a, Sleep (2 ^ nat a)] else [Attempt a]) as)"

lemma attempts_all_fail:
  assumes "\<forall>a \<in> set as. \<forall>fl r. fst (stream_download (net a) dest cb max_size fl) \<noteq> Inr (Some r)"
  shows "fst (attempts as retries net dest cb max_size files) = None \<and>
         filter is_schedule (snd (snd (attempts as retries net dest cb max_size files)))
           = schedule retries as"
  using assms
proof (induction as arbitrary: files)
  case Nil
  then show ?case by (simp add: schedule_def)
next
  case (Cons a later)
  obtain res f1 evs where sd: "stream_download (net a) dest cb max_size files = (res, f1, evs)"
    by (metis prod_cases3)
  obtain r2 f2 more where rec: "attempts later retries net dest cb max_size f1 = (r2, f2, more)"
    by (metis prod_cases3)
  have nosucc: "\<And>r. res \<noteq> Inr (Some r)"
    using Cons.prems sd by (metis fst_conv list.set_intros(1))
  have none: "filter is_schedule evs = []"
    using stream_download_effects[OF sd] by simp
  have step: "attempts (a # later) retries net dest cb max_size files =
          (r2, f2, Attempt a # evs @ (if a < retries then [Sleep (2 ^ nat a)] else []) @ more)"
  proof (cases res)
    case (Inl e)
    then show ?thesis using sd rec by simp
  next
    case (Inr x)
    with nosucc have "res = Inr None" by (cases x) auto
    then show ?thesis using sd rec by simp
  qed
  have ih: "r2 = None \<and> filter is_schedule more = schedule retries later"
    using Cons.IH[of f1] Cons.prems rec by simp
  show ?case
    unfolding step using ih none by (simp add: schedule_def)
qed

lemma attempts_wrote:
  assumes "attempts as retries net dest cb max_size files = (res, files', evs)"
    and "Wrote p n \<in> set evs"
  shows "p = dest \<and> int n \<le> max_size"
  using assms
proof (induction as arbitrary: files res files' evs)
  case Nil
  then show ?case by simp
next
  case (Cons a later)
  obtain r1 f1 e1 where sd: "stream_download (net a) dest cb max_size files = (r1, f1, e1)"
    by (metis prod_cases3)
  obtain r2 f2 more where rec: "attempts later retries net dest cb max_size f1 = (r2, f2, more)"
    by (metis prod_cases3)
  have "Wrote p n \<in> set e1 \<or> Wrote p n \<in> set more"
    using Cons.prems sd rec by (auto split: sum.splits option.splits if_splits)
  then show ?case
    using stream_download_wrote[OF sd] Cons.IH[OF rec] by blast
qed

lemma attempt_numbers_schedule: "attempt_numbers (schedule retries as) = as"
  by (induction as) (simp_all add: schedule_def)

lemma sleep_delays_schedule:
  "sleep_delays (schedule retries as) = map (\<lambda>a. 2 ^ nat a) (filter (\<lambda>a. a < retries) as)"
  by (induction as) (simp_all add: schedule_def)

lemma attempt_numbers_filter: "attempt_numbers (filter is_schedule evs) = attempt_numbers evs"
  by (induction evs rule: attempt_numbers.induct) simp_all

lemma sleep_delays_filter: "sleep_delays (filter is_schedule evs) = sleep_delays evs"
  by (induction evs rule: sleep_delays.induct) simp_all

lemma filter_upto_less: "filter (\<lambda>a. a < n) [1..n] = [1..n - 1]"
proof (cases "1 \<le> n")
  case True
  then have "[1..n] = [1..n - 1] @ [n]" by (rule upto_rec2)
  moreover have "filter (\<lambda>a. a < n) [1..n - 1] = [1..n - 1]"
    by (rule filter_True) auto
  ultimately show ?thesis by simp
next
  case False
  then show ?thesis by simp
qed

lemma delays_increasing: "sorted_wrt (<) (map (\<lambda>a. (2::int) ^ nat a) [1..m])"
proof -
  have "sorted_wrt (\<lambda>a b. (2::int) ^ nat a < 2 ^ nat b) [1..m]"
  proof (rule sorted_wrt_mono_rel[OF _ sorted_wrt_upto])
    fix a b :: int
    assume "a \<in> set [1..m]" "b \<in> set [1..m]" "a < b"
    then have "nat a < nat b" by auto
    then show "(2::int) ^ nat a < 2 ^ nat b" by simp
  qed
  then show ?thesis by (simp add: sorted_wrt_map)
qed


lemma length_concat_int:
  "int (length (concat cs)) = sum_list (map (\<lambda>c. int (length c)) cs)"
  by (induction cs) auto

lemma disk_sizes_subset:
  "n \<in> set (disk_sizes evs) \<Longrightarrow> n = 0 \<or> (\<exists>p. Wrote p n \<in> set evs)"
  by (induction evs rule: disk_sizes.induct) auto

lemma download_to_all_fail:
  assumes "\<forall>a \<in> set [1..retries]. \<forall>fl r. fst (stream_download (net a) dest cb max_size fl) \<noteq> Inr (Some r)"
  shows "\<exists>files1 evs1. attempts [1..retries] retries net dest cb max_size files = (None, files1, evs1) \<and>
           filter is_schedule evs1 = schedule retries [1..retries] \<and>
           download_to dest cb max_size retries net files
             = (None, unlink dest files1, evs1 @ [Unlinked dest])"
proof -
  obtain r f1 e1 where at: "attempts [1..retries] retries net dest cb max_size files = (r, f1, e1)"
    by (metis prod_cases3)
  from attempts_all_fail[OF assms, of retries files] at
  have "r = None" "filter is_schedule e1 = schedule retries [1..retries]" by simp_all
  then show ?thesis using at by (simp add: download_to_def)
qed

text \<open>
  Claim C4. When every fetch attempt ends in a transport error, \<open>download_file\<close> makes
  the attempts \<open>1, ..., retries\<close> and no other (\<open>retries\<close> of them; none when
  \<open>retries\<close> is not positive), sleeps \<open>2 ^ attempt\<close> seconds after every attempt but
  the last, so the delays \<open>2, 4, 8, ...\<close> increase strictly, then unlinks the
  destination path and returns \<open>None\<close>; no file is left at the destination path.
\<close>

theorem download_retry_exhaustion:
  assumes "\<forall>a \<in> set [1..retries]. transport_error max_size (net a)"
  shows "case download_to dest_path cb max_size retries net files of
           (res, files', evs) \<Rightarrow>
             res = None \<and>
             attempt_numbers evs = [1..retries] \<and>
             int (length (attempt_numbers evs)) = max 0 retries \<and>
             sleep_delays evs = map (\<lambda>a. 2 ^ nat a) [1..retries - 1] \<and>
             sorted_wrt (<) (sleep_delays evs) \<and>
             filter is_schedule evs = schedule retries [1..retries] \<and>
             last evs = Unlinked dest_path \<and>
             fmlookup files' dest_path = None"
proof -
  have nos: "\<forall>a \<in> set [1..retries]. \<forall>fl r.
               fst (stream_download (net a) dest_path cb max_size fl) \<noteq> Inr (Some r)"
  proof (intro ballI allI)
    fix a fl r assume "a \<in> set [1..retries]"
    with assms have "transport_error max_size (net a)" by blast
    from stream_download_transport_error[OF this, of dest_path cb fl]
    show "fst (stream_download (net a) dest_path cb max_size fl) \<noteq> Inr (Some r)" by auto
  qed
  from download_to_all_fail[OF nos, of files] obtain files1 evs1 where
    sch: "filter is_schedule evs1 = schedule retries [1..retries]" and
    dl: "download_to dest_path cb max_size retries net files
           = (None, unlink dest_path files1, evs1 @ [Unlinked dest_path])"
    by blast
  let ?evs = "evs1 @ [Unlinked dest_path]"
  have f: "filter is_schedule ?evs = schedule retries [1..retries]" using sch by simp
  have an: "attempt_numbers ?evs = [1..retries]"
    using attempt_numbers_filter[of ?evs] f by (simp add: attempt_numbers_schedule)
  have sl: "sleep_delays ?evs = map (\<lambda>a. 2 ^ nat a) [1..retries - 1]"
    using sleep_delays_filter[of ?evs] f by (simp add: sleep_delays_schedule filter_upto_less)
  have inc: "sorted_wrt (<) (sleep_delays ?evs)"
    unfolding sl by (rule delays_increasing)
  have len: "int (length (attempt_numbers ?evs)) = max 0 retries"
    unfolding an by simp
  show ?thesis
    unfolding dl using an sl inc len f by simp
qed

theorem download_retry_exhaustion_witness:
  "transport_error 100 (Failed ClientError) \<and>
   download_to ''tmp/a.bin'' True 100 3 (\<lambda>a. Failed ClientError) fmempty
     = (None, fmempty,
        [Attempt 1, Sleep 2, Attempt 2, Sleep 4, Attempt 3, Unlinked ''tmp/a.bin'']) \<and>
   attempt_numbers [Attempt 1, Sleep 2, Attempt 2, Sleep 4, Attempt 3, Unlinked ''tmp/a.bin'']
     = [1..3] \<and>
   sleep_delays [Attempt 1, Sleep 2, Attempt 2, Sleep 4, Attempt 3, Unlinked ''tmp/a.bin'']
     = map (\<lambda>a. 2 ^ nat a) [1..3 - 1]"
proof -
  have t: "transport_error 100 (Failed ClientError)"
    by (simp add: transport_error_def)
  then have h: "\<forall>a \<in> set [1..3]. transport_error 100 ((\<lambda>a. Failed ClientError) a)"
    by simp
  have ev: "download_to ''tmp/a.bin'' True 100 3 (\<lambda>a. Failed ClientError) fmempty
     = (None, fmempty,
        [Attempt 1, Sleep 2, Attempt 2, Sleep 4, Attempt 3, Unlinked ''tmp/a.bin''])"
    by (simp add: download_to_def upto.simps stream_download_def unlink_def)
  from download_retry_exhaustion[OF h, of "''tmp/a.bin''" True fmempty] t ev
  show ?thesis by (simp split: prod.splits)
qed


text \<open>
  Claim C3. With a size limit \<open>max_size\<close> (not negative), a download whose body is
  larger than \<open>max_size\<close> in every attempt is rejected: every attempt returns \<open>None\<close>,
  \<open>download_file\<close> returns \<open>None\<close> and no file is left at the destination path.
  An attempt whose declared length is above the limit stops before the file is opened
  (the directory is unchanged, nothing is written); an attempt that finds the excess
  while streaming has deleted the partial file when it returns.
\<close>

theorem oversized_download_rejected:
  assumes "0 \<le> max_size"
    and "\<forall>a \<in> set [1..retries]. oversized max_size (net a)"
  shows "(case download_to dest_path cb max_size retries net files of
            (res, files', evs) \<Rightarrow> res = None \<and> fmlookup files' dest_path = None) \<and>
         (\<forall>a \<in> set [1..retries]. \<forall>fl.
            fst (stream_download (net a) dest_path cb max_size fl) = Inr None) \<and>
         (\<forall>resp fl. status resp = 200 \<and> declared_length resp \<noteq> 0 \<and>
                     max_size < declared_length resp \<longrightarrow>
            stream_download (Responded resp) dest_path cb max_size fl = (Inr None, fl, [])) \<and>
         (\<forall>resp fl. status resp = 200 \<and>
                     \<not> (declared_length resp \<noteq> 0 \<and> max_size < declared_length resp) \<and>
                     max_size < body_size resp \<longrightarrow>
            (case stream_download (Responded resp) dest_path cb max_size fl of
               (res, fl', evs) \<Rightarrow> res = Inr None \<and> fmlookup fl' dest_path = None))"
proof (intro conjI ballI allI impI)
  have each: "fst (stream_download (net a) dest_path cb max_size fl) = Inr None"
    if "a \<in> set [1..retries]" for a fl
    using assms that by (intro stream_download_oversized) auto
  then show "fst (stream_download (net a) dest_path cb max_size fl) = Inr None"
    if "a \<in> set [1..retries]" for a fl
    using that by blast
  have "\<forall>a \<in> set [1..retries]. \<forall>fl r.
          fst (stream_download (net a) dest_path cb max_size fl) \<noteq> Inr (Some r)"
    using each by simp
  from download_to_all_fail[OF this, of files]
  show "case download_to dest_path cb max_size retries net files of
          (res, files', evs) \<Rightarrow> res = None \<and> fmlookup files' dest_path = None"
    by auto
next
  fix resp fl
  assume "status resp = 200 \<and> declared_length resp \<noteq> 0 \<and> max_size < declared_length resp"
  then show "stream_download (Responded resp) dest_path cb max_size fl = (Inr None, fl, [])"
    by (simp add: stream_download_preflight)
next
  fix resp fl
  assume a: "status resp = 200 \<and>
             \<not> (declared_length resp \<noteq> 0 \<and> max_size < declared_length resp) \<and>
             max_size < body_size resp"
  obtain r f2 evs where sd: "stream_download (Responded resp) dest_path cb max_size fl = (r, f2, evs)"
    by (metis prod_cases3)
  from a assms(1) have "r = Inr None \<and> fmlookup f2 dest_path = None"
    by (intro stream_download_midstream[OF _ _ _ _ sd]) auto
  then show "case stream_download (Responded resp) dest_path cb max_size fl of
               (res, fl', evs) \<Rightarrow> res = Inr None \<and> fmlookup fl' dest_path = None"
    by (simp add: sd)
qed

definition big_body :: response where
  "big_body = \<lparr>status = 200, content_length_header = None,
               chunks = [''ab'', ''cd'', ''ef''], ending = Eof\<rparr>"

theorem oversized_download_rejected_witness:
  "(0::int) \<le> 5 \<and> oversized 5 (Responded big_body) \<and>
   download_to ''tmp/a.bin'' False 5 2 (\<lambda>a. Responded big_body) fmempty
     = (None, fmempty,
        [Attempt 1, Opened ''tmp/a.bin'', Wrote ''tmp/a.bin'' 2, Wrote ''tmp/a.bin'' 4,
         Unlinked ''tmp/a.bin'', Sleep 2,
         Attempt 2, Opened ''tmp/a.bin'', Wrote ''tmp/a.bin'' 2, Wrote ''tmp/a.bin'' 4,
         Unlinked ''tmp/a.bin'', Unlinked ''tmp/a.bin'']) \<and>
   fst (download_to ''tmp/a.bin'' False 5 2 (\<lambda>a. Responded big_body) fmempty) = None \<and>
   fmlookup (fst (snd (download_to ''tmp/a.bin'' False 5 2 (\<lambda>a. Responded big_body) fmempty)))
     ''tmp/a.bin'' = None"
proof -
  have h0: "(0::int) \<le> 5" by simp
  have o: "oversized 5 (Responded big_body)"
    by (simp add: oversized_def body_size_def big_body_def)
  then have h: "\<forall>a \<in> set [1..2]. oversized 5 ((\<lambda>a. Responded big_body) a)"
    by simp
  have ev: "download_to ''tmp/a.bin'' False 5 2 (\<lambda>a. Responded big_body) fmempty
     = (None, fmempty,
        [Attempt 1, Opened ''tmp/a.bin'', Wrote ''tmp/a.bin'' 2, Wrote ''tmp/a.bin'' 4,
         Unlinked ''tmp/a.bin'', Sleep 2,
         Attempt 2, Opened ''tmp/a.bin'', Wrote ''tmp/a.bin'' 2, Wrote ''tmp/a.bin'' 4,
         Unlinked ''tmp/a.bin'', Unlinked ''tmp/a.bin''])"
    by (simp add: download_to_def upto.simps stream_download_def unlink_def big_body_def
        open_wb_def write_chunk_def file_bytes_def fmdrop_fmupd_same)
  from oversized_download_rejected[OF h0 h, of "''tmp/a.bin''" False fmempty]
  have "case download_to ''tmp/a.bin'' False 5 2 (\<lambda>a. Responded big_body) fmempty of
          (res, files', evs) \<Rightarrow> res = None \<and> fmlookup files' ''tmp/a.bin'' = None"
    by (rule conjunct1)
  then have "fst (download_to ''tmp/a.bin'' False 5 2 (\<lambda>a. Responded big_body) fmempty) = None \<and>
   fmlookup (fst (snd (download_to ''tmp/a.bin'' False 5 2 (\<lambda>a. Responded big_body) fmempty)))
     ''tmp/a.bin'' = None"
    by (simp split: prod.splits)
  with h0 o ev show ?thesis by blast
qed

text \<open>
  Claim C10. During a streamed download the destination file never holds more than
  \<open>max_size\<close> bytes: every write, in one attempt and over all attempts of
  \<open>download_file\<close>, goes to the destination path and leaves at most \<open>max_size\<close> bytes
  there, because the total is checked before the chunk is written. With a limit that
  is not negative this covers the empty file right after it is opened, and the file a
  successful attempt leaves.
\<close>

theorem stream_download_disk_bound:
  "(case stream_download f dest_path cb max_size files of
      (res, files', evs) \<Rightarrow>
        (\<forall>p n. Wrote p n \<in> set evs \<longrightarrow> p = dest_path \<and> int n \<le> max_size) \<and>
        (0 \<le> max_size \<longrightarrow> (\<forall>n \<in> set (disk_sizes evs). int n \<le> max_size)) \<and>
        (\<forall>r. res = Inr (Some r) \<and> 0 \<le> max_size \<longrightarrow>
              int (length (file_bytes files' dest_path)) \<le> max_size)) \<and>
   (case download_to dest_path cb max_size retries net files of
      (res, files', evs) \<Rightarrow>
        (\<forall>p n. Wrote p n \<in> set evs \<longrightarrow> p = dest_path \<and> int n \<le> max_size))"
proof (rule conjI)
  obtain res f1 evs where sd: "stream_download f dest_path cb max_size files = (res, f1, evs)"
    by (metis prod_cases3)
  have w: "p = dest_path \<and> int n \<le> max_size" if "Wrote p n \<in> set evs" for p n
    using stream_download_wrote[OF sd that] .
  have d: "int n \<le> max_size" if "0 \<le> max_size" "n \<in> set (disk_sizes evs)" for n
    using disk_sizes_subset[OF that(2)] w that(1) by auto
  have s: "int (length (file_bytes f1 dest_path)) \<le> max_size"
    if "res = Inr (Some r)" "0 \<le> max_size" for r
  proof -
    from stream_download_effects[OF sd] that(1) obtain resp where
      f: "f = Responded resp" and c: "fmlookup f1 dest_path = Some (concat (chunks resp))"
      by auto
    have "\<not> max_size < body_size resp"
    proof
      assume "max_size < body_size resp"
      then have "oversized max_size f" by (simp add: oversized_def f)
      from stream_download_oversized[OF this that(2), of dest_path cb files] sd that(1)
      show False by simp
    qed
    moreover have "int (length (concat (chunks resp))) = body_size resp"
      by (simp add: body_size_def length_concat_int)
    ultimately show ?thesis using c by (simp add: file_bytes_def)
  qed
  show "case stream_download f dest_path cb max_size files of
      (res, files', evs) \<Rightarrow>
        (\<forall>p n. Wrote p n \<in> set evs \<longrightarrow> p = dest_path \<and> int n \<le> max_size) \<and>
        (0 \<le> max_size \<longrightarrow> (\<forall>n \<in> set (disk_sizes evs). int n \<le> max_size)) \<and>
        (\<forall>r. res = Inr (Some r) \<and> 0 \<le> max_size \<longrightarrow>
              int (length (file_bytes files' dest_path)) \<le> max_size)"
    unfolding sd using w d s by auto
next
  obtain res f1 evs where dl: "download_to dest_path cb max_size retries net files = (res, f1, evs)"
    by (metis prod_cases3)
  obtain r2 f2 e2 where at: "attempts [1..retries] retries net dest_path cb max_size files = (r2, f2, e2)"
    by (metis prod_cases3)
  have "set evs \<subseteq> set e2 \<union> {Unlinked dest_path}"
    using dl at by (auto simp: download_to_def split: option.splits)
  then have "p = dest_path \<and> int n \<le> max_size" if "Wrote p n \<in> set evs" for p n
    using attempts_wrote[OF at, of p n] that by auto
  then show "case download_to dest_path cb max_size retries net files of
      (res, files', evs) \<Rightarrow>
        (\<forall>p n. Wrote p n \<in> set evs \<longrightarrow> p = dest_path \<and> int n \<le> max_size)"
    unfolding dl by simp
qed

theorem stream_download_disk_bound_witness:
  "stream_download (Responded big_body) ''tmp/a.bin'' False 5 fmempty
     = (Inr None, fmempty,
        [Opened ''tmp/a.bin'', Wrote ''tmp/a.bin'' 2, Wrote ''tmp/a.bin'' 4, Unlinked ''tmp/a.bin'']) \<and>
   disk_sizes [Opened ''tmp/a.bin'', Wrote ''tmp/a.bin'' 2, Wrote ''tmp/a.bin'' 4,
               Unlinked ''tmp/a.bin''] = [0, 2, 4] \<and>
   int 2 \<le> 5 \<and> int 4 \<le> 5"
proof -
  have ev: "stream_download (Responded big_body) ''tmp/a.bin'' False 5 fmempty
     = (Inr None, fmempty,
        [Opened ''tmp/a.bin'', Wrote ''tmp/a.bin'' 2, Wrote ''tmp/a.bin'' 4, Unlinked ''tmp/a.bin''])"
    by (simp add: stream_download_def unlink_def big_body_def
        open_wb_def write_chunk_def file_bytes_def fmdrop_fmupd_same)
  from stream_download_disk_bound[where f = "Responded big_body" and dest_path = "''tmp/a.bin''"
      and cb = False and max_size = 5 and files = fmempty and retries = 1
      and net = "\<lambda>a. Failed ClientError"]
  have "\<forall>p n. Wrote p n \<in> set [Opened ''tmp/a.bin'', Wrote ''tmp/a.bin'' 2,
                  Wrote ''tmp/a.bin'' 4, Unlinked ''tmp/a.bin''] \<longrightarrow>
              p = ''tmp/a.bin'' \<and> int n \<le> 5"
    unfolding ev by simp
  then have "int 2 \<le> 5 \<and> int 4 \<le> 5" by simp
  with ev show ?thesis by simp
qed

section \<open>Progress reporter (utils/progress.py)\<close>

subsection \<open>Python numbers and their texts\<close>

text \<open>
  A Python \<open>float\<close> is an IEEE 754 binary64 number, here a rational. \<open>fl\<close> rounds a
  rational to the nearest binary64 number, ties to the even significand (for values in
  the normal range: no overflow, no subnormal numbers). \<open>a / b\<close> on two \<open>int\<close>s is the
  correctly rounded quotient (\<open>true_div\<close>), \<open>int(x)\<close> cuts the fraction off
  (\<open>int_of_float\<close>), \<open>str(n)\<close> is the decimal text of an \<open>int\<close> and \<open>f"{x:.1f}"\<close> the
  text of \<open>x\<close> rounded to one decimal, ties to even (\<open>format_1f\<close>).
\<close>

function bit_length :: "int \<Rightarrow> int" where
  "bit_length n = (if n \<le> 0 then 0 else 1 + bit_length (n div 2))"
  by pat_completeness auto
termination
  by (relation "measure nat") auto

declare bit_length.simps [simp del]

definition round_half_even :: "rat \<Rightarrow> int" where
  "round_half_even x =
     (let f = \<lfloor>x\<rfloor>; d = x - of_int f
      in if d < 1 / 2 then f
         else if 1 / 2 < d then f + 1
         else if even f then f else f + 1)"

definition binary_exponent :: "rat \<Rightarrow> int" where
  "binary_exponent x =
     (let (a, b) = quotient_of \<bar>x\<bar>;
          e0 = bit_length a - bit_length b
      in if 2 powi e0 \<le> \<bar>x\<bar> then e0 else e0 - 1)"

definition fl :: "rat \<Rightarrow> rat" where
  "fl x =
     (if x = 0 then 0
      else (let u = 2 powi (binary_exponent x - 52)
            in of_int (round_half_even (x / u)) * u))"

definition int_of_float :: "rat \<Rightarrow> int" where
  "int_of_float x = (if 0 \<le> x then \<lfloor>x\<rfloor> else \<lceil>x\<rceil>)"

definition true_div :: "int \<Rightarrow> int \<Rightarrow> rat" where
  "true_div a b = fl (of_int a / of_int b)"

text \<open>\<open>min(int(downloaded / total * 100), 100)\<close>, as \<open>update\<close> computes it.\<close>

definition percent :: "int \<Rightarrow> int \<Rightarrow> int" where
  "percent downloaded total_bytes = min (int_of_float (fl (true_div downloaded total_bytes * 100))) 100"



definition digit_char :: "int \<Rightarrow> char" where
  "digit_char d = char_of (48 + d)"

function digits :: "int \<Rightarrow> string" where
  "digits n = (if n < 10 then [digit_char n] else digits (n div 10) @ [digit_char (n mod 10)])"
  by pat_completeness auto
termination
  by (relation "measure nat") auto

declare digits.simps [simp del]

definition str_int :: "int \<Rightarrow> string" where
  "str_int n = (if n < 0 then CHR ''-'' # digits (- n) else digits n)"

definition format_1f :: "rat \<Rightarrow> string" where
  "format_1f x =
     (let r = round_half_even (\<bar>x\<bar> * 10)
      in (if x < 0 then ''-'' else []) @ digits (r div 10) @ ''.'' @ digits (r mod 10))"

text \<open>
  The texts sent to the messaging platform are UTF-8 byte strings: the arrow, the marks,
  the two bar cells, the dash and the ellipsis are the byte sequences of their code
  points.
\<close>

definition DOWN_ARROW :: string where
  "DOWN_ARROW = [CHR 0xE2, CHR 0xAC, CHR 0x87, CHR 0xEF, CHR 0xB8, CHR 0x8F]"

definition CHECK_MARK :: string where
  "CHECK_MARK = [CHR 0xE2, CHR 0x9C, CHR 0x85]"

definition CROSS_MARK :: string where
  "CROSS_MARK = [CHR 0xE2, CHR 0x9D, CHR 0x8C]"

definition FULL_BLOCK :: string where
  "FULL_BLOCK = [CHR 0xE2, CHR 0x96, CHR 0x88]"

definition LIGHT_SHADE :: string where
  "LIGHT_SHADE = [CHR 0xE2, CHR 0x96, CHR 0x91]"

definition EM_DASH :: string where
  "EM_DASH = [CHR 0xE2, CHR 0x80, CHR 0x94]"

definition ELLIPSIS :: string where
  "ELLIPSIS = [CHR 0xE2, CHR 0x80, CHR 0xA6]"

definition NEWLINE :: string where
  "NEWLINE = [CHR 0x0A]"

subsection \<open>The tracker\<close>

text \<open>
  \<open>ProgressTracker\<close>: its fields, and as \<open>message\<close> the texts it has sent with
  \<open>message.edit_text\<close>, oldest first (a failing edit is swallowed by \<open>_edit\<close>, so what is
  recorded is the attempt). The reading of \<open>time.monotonic()\<close> is an argument of
  \<open>update\<close>; readings and their differences are exact numbers. \<open>updates\<close> is a sequence
  of progress callbacks, each with its clock reading.
\<close>

record tracker =
  filename :: string
  update_interval :: real
  last_update :: real
  last_text :: string
  message :: "string list"

definition new_tracker :: "string list \<Rightarrow> string \<Rightarrow> real \<Rightarrow> tracker" where
  "new_tracker msg name interval =
     \<lparr>filename = name, update_interval = interval, last_update = 0, last_text = [],
      message = msg\<rparr>"

definition edit :: "tracker \<Rightarrow> string \<Rightarrow> tracker" where
  "edit t txt =
     (if txt = last_text t then t
      else t\<lparr>last_text := txt, message := message t @ [txt]\<rparr>)"

definition bar_filled :: "int \<Rightarrow> int \<Rightarrow> int" where
  "bar_filled pct width = int_of_float (true_div (width * pct) 100)"

definition bar_cells :: "int \<Rightarrow> int \<Rightarrow> string list" where
  "bar_cells pct width =
     replicate (nat (bar_filled pct width)) FULL_BLOCK
     @ replicate (nat (width - bar_filled pct width)) LIGHT_SHADE"

definition bar :: "int \<Rightarrow> int \<Rightarrow> string" where
  "bar pct width = ''['' @ concat (bar_cells pct width) @ '']''"

definition progress_text :: "string \<Rightarrow> int \<Rightarrow> int \<Rightarrow> string" where
  "progress_text name downloaded total_bytes =
     (if total_bytes > 0
      then (let pct = percent downloaded total_bytes;
                dl_mb = true_div downloaded 1048576;
                tot_mb = true_div total_bytes 1048576
            in DOWN_ARROW @ '' `'' @ name @ ''`'' @ NEWLINE
               @ bar pct 20 @ '' '' @ str_int pct @ ''%'' @ NEWLINE
               @ format_1f dl_mb @ '' / '' @ format_1f tot_mb @ '' MB'')
      else (let dl_mb = true_div downloaded 1048576
            in DOWN_ARROW @ '' `'' @ name @ ''` '' @ EM_DASH @ '' ''
               @ format_1f dl_mb @ '' MB downloaded'' @ ELLIPSIS))"

definition update :: "tracker \<Rightarrow> real \<Rightarrow> int \<Rightarrow> int \<Rightarrow> tracker" where
  "update t now downloaded total_bytes =
     (if now - last_update t < update_interval t then t
      else edit (t\<lparr>last_update := now\<rparr>) (progress_text (filename t) downloaded total_bytes))"

definition complete_text :: "string \<Rightarrow> string" where
  "complete_text name = CHECK_MARK @ '' `'' @ name @ ''` downloaded''"

definition complete :: "tracker \<Rightarrow> tracker" where
  "complete t = edit t (complete_text (filename t))"

definition error_text :: "string \<Rightarrow> string \<Rightarrow> string" where
  "error_text name reason = CROSS_MARK @ '' `'' @ name @ ''` '' @ EM_DASH @ '' '' @ reason"

definition error :: "tracker \<Rightarrow> string \<Rightarrow> tracker" where
  "error t reason = edit t (error_text (filename t) reason)"

fun updates :: "tracker \<Rightarrow> (real \<times> int \<times> int) list \<Rightarrow> tracker" where
  "updates t [] = t"
| "updates t ((now, downloaded, total_bytes) # calls) =
     updates (update t now downloaded total_bytes) calls"


subsection \<open>Properties of the tracker\<close>

lemma edit_fields [simp]:
  "filename (edit t txt) = filename t" "update_interval (edit t txt) = update_interval t"
  "last_update (edit t txt) = last_update t"
  by (simp_all add: edit_def)

lemma edit_message_length:
  "length (message (edit t txt)) \<le> length (message t) + 1"
  by (simp add: edit_def)

lemma edit_renders:
  "txt \<noteq> last_text t \<Longrightarrow> message (edit t txt) = message t @ [txt]"
  by (simp add: edit_def)

lemma update_rejected:
  "now - last_update t < update_interval t \<Longrightarrow> update t now downloaded total_bytes = t"
  by (simp add: update_def)

lemma update_accepted:
  "\<not> now - last_update t < update_interval t \<Longrightarrow>
     last_update (update t now downloaded total_bytes) = now \<and>
     update_interval (update t now downloaded total_bytes) = update_interval t \<and>
     length (message (update t now downloaded total_bytes)) \<le> length (message t) + 1"
  using edit_message_length[of "t\<lparr>last_update := now\<rparr>"
      "progress_text (filename t) downloaded total_bytes"]
  by (simp add: update_def)

lemma updates_all_rejected:
  assumes "\<forall>c \<in> set calls. fst c - last_update t < update_interval t"
  shows "updates t calls = t"
  using assms
proof (induction calls)
  case Nil
  show ?case by simp
next
  case (Cons c calls)
  obtain now d tb where c: "c = (now, d, tb)" by (cases c)
  from Cons.prems have "update t now d tb = t" by (simp add: c update_rejected)
  with Cons show ?case by (simp add: c)
qed

lemma updates_window:
  assumes "\<forall>c \<in> set calls. \<forall>c' \<in> set calls. \<bar>fst c' - fst c\<bar> < update_interval t"
  shows "length (message (updates t calls)) \<le> length (message t) + 1"
  using assms
proof (induction calls)
  case Nil
  show ?case by simp
next
  case (Cons c calls)
  obtain now d tb where c: "c = (now, d, tb)" by (cases c)
  show ?case
  proof (cases "now - last_update t < update_interval t")
    case True
    then have "update t now d tb = t" by (rule update_rejected)
    moreover have "length (message (updates t calls)) \<le> length (message t) + 1"
      using Cons.prems by (intro Cons.IH) auto
    ultimately show ?thesis by (simp add: c)
  next
    case False
    let ?t1 = "update t now d tb"
    from update_accepted[OF False, of d tb]
    have lu: "last_update ?t1 = now" and ui: "update_interval ?t1 = update_interval t"
      and len: "length (message ?t1) \<le> length (message t) + 1" by simp_all
    have "\<forall>c' \<in> set calls. fst c' - last_update ?t1 < update_interval ?t1"
    proof
      fix c' assume "c' \<in> set calls"
      with Cons.prems have "\<bar>fst c' - fst c\<bar> < update_interval t" by simp
      then show "fst c' - last_update ?t1 < update_interval ?t1"
        by (simp add: lu ui c)
    qed
    then have "updates ?t1 calls = ?t1" by (rule updates_all_rejected)
    with len show ?thesis by (simp add: c)
  qed
qed

text \<open>A progress text and the text of \<open>complete\<close> differ in their second byte.\<close>

lemma progress_text_not_complete:
  "progress_text name downloaded total_bytes \<noteq> complete_text name'"
proof
  assume eq: "progress_text name downloaded total_bytes = complete_text name'"
  have "\<exists>rest. progress_text name downloaded total_bytes = DOWN_ARROW @ rest"
    unfolding progress_text_def Let_def by (cases "total_bytes > 0") simp_all
  then obtain rest where "progress_text name downloaded total_bytes = DOWN_ARROW @ rest" ..
  then have "progress_text name downloaded total_bytes ! 1 = CHR 0xAC"
    by (simp add: DOWN_ARROW_def)
  moreover have "complete_text name' ! 1 = CHR 0x9C"
    by (simp add: complete_text_def CHECK_MARK_def)
  ultimately show False using eq by simp
qed

lemma updates_last_text:
  assumes "last_text t = [] \<or> (\<exists>d tb. last_text t = progress_text (filename t) d tb)"
  shows "last_text (updates t calls) = [] \<or>
         (\<exists>d tb. last_text (updates t calls) = progress_text (filename t) d tb)"
  using assms
proof (induction calls arbitrary: t)
  case Nil
  then show ?case by simp
next
  case (Cons c calls)
  obtain now d tb where c: "c = (now, d, tb)" by (cases c)
  let ?t1 = "update t now d tb"
  have fn: "filename ?t1 = filename t" by (simp add: update_def)
  have "last_text ?t1 = [] \<or> (\<exists>d tb. last_text ?t1 = progress_text (filename ?t1) d tb)"
    using Cons.prems unfolding fn by (auto simp: update_def edit_def)
  from Cons.IH[OF this] show ?case by (simp add: c fn)
qed

text \<open>
  Claim C6. \<open>update\<close> changes nothing and renders nothing while less than
  \<open>update_interval\<close> seconds of the monotonic clock have passed since the last accepted
  update. So any sequence of progress callbacks (100 of them, or any other number) whose
  clock readings lie within a window shorter than one interval renders at most one
  progress update. \<open>complete\<close> and \<open>error\<close> do not read the clock and add at most one
  more render; on a tracker that started with no text, \<open>complete\<close> always renders.
\<close>

theorem progress_throttle:
  assumes "\<forall>c \<in> set calls. \<forall>c' \<in> set calls. \<bar>fst c' - fst c\<bar> < update_interval t"
  shows "(\<forall>now downloaded total_bytes.
            now - last_update t < update_interval t \<longrightarrow>
            update t now downloaded total_bytes = t) \<and>
         length (message (updates t calls)) \<le> length (message t) + 1 \<and>
         length (message (complete (updates t calls))) \<le> length (message t) + 2 \<and>
         length (message (error (updates t calls) reason)) \<le> length (message t) + 2 \<and>
         (last_text t = [] \<longrightarrow>
            message (complete (updates t calls))
              = message (updates t calls) @ [complete_text (filename t)])"
proof (intro conjI allI impI)
  fix now downloaded total_bytes
  assume "now - last_update t < update_interval t"
  then show "update t now downloaded total_bytes = t" by (rule update_rejected)
next
  show w: "length (message (updates t calls)) \<le> length (message t) + 1"
    using assms by (rule updates_window)
  have "length (message (complete (updates t calls))) \<le> length (message (updates t calls)) + 1"
    unfolding complete_def by (rule edit_message_length)
  with w show "length (message (complete (updates t calls))) \<le> length (message t) + 2"
    by linarith
  have "length (message (error (updates t calls) reason)) \<le> length (message (updates t calls)) + 1"
    unfolding error_def by (rule edit_message_length)
  with w show "length (message (error (updates t calls) reason)) \<le> length (message t) + 2"
    by linarith
next
  assume fresh: "last_text t = []"
  let ?t' = "updates t calls"
  have fn: "filename ?t' = filename t"
    by (induction calls arbitrary: t) (auto simp: update_def)
  from updates_last_text[of t calls] fresh
  have "last_text ?t' = [] \<or> (\<exists>d tb. last_text ?t' = progress_text (filename t) d tb)"
    by simp
  moreover have "complete_text (filename t) \<noteq> []"
    by (simp add: complete_text_def CHECK_MARK_def)
  ultimately have "complete_text (filename t) \<noteq> last_text ?t'"
    using progress_text_not_complete[of "filename t" _ _ "filename t"]
    by metis
  then show "message (complete ?t') = message ?t' @ [complete_text (filename t)]"
    by (simp add: complete_def fn edit_renders)
qed


theorem progress_throttle_witness:
  "\<bar>(10::real) - 10\<bar> < 3 \<and>
   length (replicate 100 (10::real, 5::int, 10::int)) = 100 \<and>
   length (message (updates (new_tracker [] ''a.bin'' 3) (replicate 100 (10, 5, 10)))) \<le> 1"
proof -
  let ?t = "new_tracker [] ''a.bin'' 3"
  have h: "\<forall>c \<in> set (replicate 100 (10::real, 5::int, 10::int)).
             \<forall>c' \<in> set (replicate 100 (10::real, 5::int, 10::int)).
               \<bar>fst c' - fst c\<bar> < update_interval ?t"
    by (simp add: new_tracker_def)
  from progress_throttle[OF h]
  have "length (message (updates ?t (replicate 100 (10, 5, 10)))) \<le> length (message ?t) + 1"
    by (rule conjunct1[OF conjunct2])
  then show ?thesis by (simp add: new_tracker_def)
qed

text \<open>
  The rendered text: a bytes-only message when the total is not positive; otherwise the
  bar, the percentage and the two MB counts. For a percentage between 0 and 100 the bar
  has 20 cells, \<open>floor(20 * pct / 100)\<close> of them filled.
\<close>

lemma progress_text_unknown_total:
  "total_bytes \<le> 0 \<Longrightarrow>
     progress_text name downloaded total_bytes
       = DOWN_ARROW @ '' `'' @ name @ ''` '' @ EM_DASH @ '' ''
         @ format_1f (true_div downloaded 1048576) @ '' MB downloaded'' @ ELLIPSIS"
  by (simp add: progress_text_def)

lemma progress_text_known_total:
  "0 < total_bytes \<Longrightarrow>
     progress_text name downloaded total_bytes
       = DOWN_ARROW @ '' `'' @ name @ ''`'' @ NEWLINE
         @ bar (percent downloaded total_bytes) 20 @ '' ''
         @ str_int (percent downloaded total_bytes) @ ''%'' @ NEWLINE
         @ format_1f (true_div downloaded 1048576) @ '' / ''
         @ format_1f (true_div total_bytes 1048576) @ '' MB''"
  by (simp add: progress_text_def Let_def)

lemma bar_filled_table: "list_all (\<lambda>p. bar_filled p 20 = 20 * p div 100) [0..100]"
  by code_simp

lemma bar_filled_floor:
  assumes "0 \<le> pct" "pct \<le> 100"
  shows "bar_filled pct 20 = 20 * pct div 100 \<and> length (bar_cells pct 20) = 20"
proof -
  from assms have "pct \<in> set [0..100]" by simp
  with bar_filled_table have f: "bar_filled pct 20 = 20 * pct div 100"
    unfolding list_all_iff by blast
  have "0 \<le> 20 * pct div 100" "20 * pct div 100 \<le> 20" using assms by auto
  then show ?thesis using f by (simp add: bar_cells_def)
qed

text \<open>
  Claim C9. For an accepted update with a positive total the rendered percentage is
  \<open>min(floor(downloaded / total * 100), 100)\<close>. The code computes the quotient and the
  product in binary64: for 29 bytes of 100 the quotient rounds to a number below 0.29,
  the product to 28.999999999999996, and the rendered percentage is 28, where the
  formula gives 29.
\<close>

theorem percent_rounds_down:
  "percent 29 100 = 28 \<and> min \<lfloor>(29::rat) / 100 * 100\<rfloor> 100 = 29 \<and>
   progress_text ''f'' 29 100
     = DOWN_ARROW @ '' `f`'' @ NEWLINE @ bar 28 20 @ '' 28%'' @ NEWLINE @ ''0.0 / 0.0 MB''"
  by code_simp

end
